theory Spec2Isabelle
  imports Main "HOL-Library.Sublist"
begin

section \<open>Text primitives of the scripts\<close>

text \<open>
  The scripts work on Python \<open>str\<close> values. A buffer is modelled as a \<^typ>\<open>string\<close>
  whose elements are the characters of the text (one \<^typ>\<open>char\<close> per character, code
  points below 256). The functions of this section model the library calls the scripts
  make: \<open>x in s\<close>, \<open>str.replace\<close>, \<open>str.lstrip\<close>, \<open>str.splitlines\<close> and \<open>str.join\<close>.
\<close>

type_synonym line = string

text \<open>Python \<open>needle in s\<close> on strings: \<open>needle\<close> occurs in \<open>s\<close> at some position.\<close>

fun contains :: "string \<Rightarrow> string \<Rightarrow> bool" where
  "contains needle [] = (needle = [])"
| "contains needle (c # cs) = (prefix needle (c # cs) \<or> contains needle cs)"

text \<open>
  Python \<open>s.replace(old, new)\<close>: every non-overlapping occurrence of \<open>old\<close>, found from
  left to right, is replaced. For an empty \<open>old\<close> Python puts \<open>new\<close> before every character
  and at the end.
\<close>

function replace :: "string \<Rightarrow> string \<Rightarrow> string \<Rightarrow> string" where
  "replace old new [] = (if old = [] then new else [])"
| "replace old new (c # cs) =
     (if old = [] then new @ c # replace old new cs
      else if prefix old (c # cs) then new @ replace old new (drop (length old - 1) cs)
      else c # replace old new cs)"
  by pat_completeness auto
termination
  by (relation "measure (\<lambda>(old, new, s). length s)") auto

text \<open>
  The characters Python counts as whitespace (\<open>str.isspace\<close>, the class \<open>\s\<close> of \<open>re\<close>),
  among the code points below 256: tab, line feed, vertical tab, form feed, carriage return,
  the separators 0x1C to 0x1F, space, 0x85 and 0xA0.
\<close>

definition isspace :: "char \<Rightarrow> bool" where
  "isspace c \<longleftrightarrow> c \<in> set [CHR 0x09, CHR 0x0A, CHR 0x0B, CHR 0x0C, CHR 0x0D,
     CHR 0x1C, CHR 0x1D, CHR 0x1E, CHR 0x1F, CHR 0x20, CHR 0x85, CHR 0xA0]"

definition lstrip :: "string \<Rightarrow> string" where
  "lstrip s = dropWhile isspace s"

text \<open>
  The line boundaries of \<open>str.splitlines\<close> below 256: line feed, carriage return, vertical
  tab, form feed, 0x1C, 0x1D, 0x1E and 0x85; a carriage return followed by a line feed is one
  boundary.
\<close>

definition is_linebreak :: "char \<Rightarrow> bool" where
  "is_linebreak c \<longleftrightarrow> c \<in> set [CHR 0x0A, CHR 0x0D, CHR 0x0B, CHR 0x0C,
     CHR 0x1C, CHR 0x1D, CHR 0x1E, CHR 0x85]"

text \<open>
  \<open>splitlines_go cur s\<close>: \<open>cur\<close> is the text of the line being read. A last line without a
  boundary is kept unless it is empty, as \<open>''a\nb\n''.splitlines()\<close> is \<open>['a', 'b']\<close>.
\<close>

fun splitlines_go :: "string \<Rightarrow> string \<Rightarrow> line list" where
  "splitlines_go cur [] = (if cur = [] then [] else [cur])"
| "splitlines_go cur (c # cs) =
     (if c = CHR 0x0D \<and> cs \<noteq> [] \<and> hd cs = CHR 0x0A then cur # splitlines_go [] (tl cs)
      else if is_linebreak c then cur # splitlines_go [] cs
      else splitlines_go (cur @ [c]) cs)"

definition splitlines :: "string \<Rightarrow> line list" where
  "splitlines s = splitlines_go [] s"

text \<open>Python \<open>sep.join(xs)\<close>.\<close>

fun join :: "string \<Rightarrow> string list \<Rightarrow> string" where
  "join sep [] = []"
| "join sep [x] = x"
| "join sep (x # y # ys) = x @ sep @ join sep (y # ys)"

text \<open>Python \<open>xs[a:b]\<close> for indices \<open>0 \<le> a\<close>, \<open>0 \<le> b\<close>; out-of-range bounds are clamped.\<close>

definition slice :: "nat \<Rightarrow> nat \<Rightarrow> 'a list \<Rightarrow> 'a list" where
  "slice a b xs = drop a (take b xs)"


section \<open>The line-indexed patcher (fix\_user\_controller.py)\<close>

text \<open>
  The inner loop of the duplicate \<open>_count\<close> rule: starting at line \<open>i\<close> with depth \<open>depth\<close>,
  a line containing an opening brace raises the depth by one, a line containing a closing
  brace lowers it by one, and the scan stops after the line on which a closing brace brings
  the depth to zero. The result is the index at which the outer loop goes on.
\<close>

function skip_block :: "line list \<Rightarrow> nat \<Rightarrow> int \<Rightarrow> nat" where
  "skip_block lines i depth =
     (if i < length lines then
        (let depth1 = (if contains ''{'' (lines ! i) then depth + 1 else depth) in
         if contains ''}'' (lines ! i) then
           (if depth1 - 1 = 0 then i + 1 else skip_block lines (i + 1) (depth1 - 1))
         else skip_block lines (i + 1) depth1)
      else i)"
  by pat_completeness auto
termination
  by (relation "measure (\<lambda>(lines, i, depth). length lines - i)") auto

declare skip_block.simps [simp del]

text \<open>String constants of the scripts that end in an apostrophe (0x27).\<close>

abbreviation (input) status_ACTIVE :: string where
  "status_ACTIVE \<equiv> ''status: 'ACTIVE'' @ [CHR 0x27]"

abbreviation (input) status_eq_INACTIVE :: string where
  "status_eq_INACTIVE \<equiv> ''status === 'INACTIVE'' @ [CHR 0x27]"

abbreviation (input) status_INACTIVE :: string where
  "status_INACTIVE \<equiv> ''status: 'INACTIVE'' @ [CHR 0x27]"

text \<open>The rewrites of source lines 17 to 31, applied to the current line in this order.\<close>

definition rewrite_head :: "nat \<Rightarrow> line \<Rightarrow> line" where
  "rewrite_head i line0 =
     (let line1 = (if i = 1 \<and> contains ''Role, UserStatus'' line0
                   then replace ''Role, UserStatus'' ''UserRole'' line0 else line0);
          line2 = (if contains ''z.nativeEnum(Role)'' line1
                   then replace ''z.nativeEnum(Role)'' ''z.nativeEnum(UserRole)'' line1 else line1);
          line3 = (if contains ''z.nativeEnum(UserStatus)'' line2
                   then replace ''status: z.nativeEnum(UserStatus).optional()''
                          ''isActive: z.boolean().optional()'' line2 else line2);
          line4 = (if contains ''if (status) where.status = status;'' line3
                   then replace ''if (status) where.status = status;''
                          ''if (status) where.isActive = status === 'ACTIVE';'' line3 else line3)
      in line4)"

text \<open>
  The rewrites of source lines 54 to 70. The second test of the first rule is Python's
  \<open>in\<close> on a list of lines: it asks whether one of the lines \<open>max(0, i-10)\<close> to \<open>i\<close> is equal
  to \<open>activityLog\<close>.
\<close>

definition rewrite_mid :: "line list \<Rightarrow> nat \<Rightarrow> line \<Rightarrow> line" where
  "rewrite_mid lines i line0 =
     (let line1 = (if contains ''orderBy: { createdAt:'' line0
                      \<and> ''activityLog'' \<in> set (slice (i - 10) (i + 1) lines)
                   then replace ''orderBy: { createdAt: 'desc' }''
                          ''orderBy: { timestamp: 'desc' }'' line0 else line0);
          line2 = (if contains ''createdAt: true,'' line1 \<and> i \<ge> 195 \<and> i \<le> 230
                   then replace ''createdAt: true,'' ''timestamp: true,'' line1 else line1);
          line3 = (if contains ''userId: newUser.id,'' line2
                   then replace ''userId: newUser.id,'' ''recipientUserId: newUser.id,'' line2
                   else line2);
          line4 = (if contains ''userId: updatedUser.id,'' line3
                   then replace ''userId: updatedUser.id,'' ''recipientUserId: updatedUser.id,'' line3
                   else line3);
          line5 = (if contains ''userId: existingUser.id,'' line4
                   then replace ''userId: existingUser.id,'' ''recipientUserId: existingUser.id,'' line4
                   else line4);
          line6 = (if contains status_ACTIVE line5
                   then replace status_ACTIVE ''isActive: true'' line5 else line5)
      in line6)"

text \<open>The rewrites of source lines 78 to 109.\<close>

definition add_return :: "line \<Rightarrow> line" where
  "add_return line0 = ''    return '' @ lstrip line0"

definition rewrite_tail :: "nat \<Rightarrow> line \<Rightarrow> line" where
  "rewrite_tail i line0 =
     (let line1 = (if i \<ge> 456 \<and> i \<le> 472 then
                     (let l1 = (if contains ''status: true'' line0
                                then replace ''status: true'' ''isActive: true'' line0 else line0);
                          l2 = (if contains status_eq_INACTIVE l1
                                then replace status_eq_INACTIVE ''!isActive'' l1 else l1);
                          l3 = (if contains status_INACTIVE l2
                                then replace status_INACTIVE ''isActive: false'' l2 else l2)
                      in l3)
                   else line0);
          line2 = (if contains ''where: { status: 'ACTIVE' }'' line1
                   then replace ''where: { status: 'ACTIVE' }'' ''where: { isActive: true }'' line1
                   else line1);
          line3 = (if contains ''errors: error.errors'' line2
                   then replace ''errors: error.errors'' ''errors: error.issues'' line2 else line2);
          line4 = (if contains ''validatedData.status'' line3
                   then replace ''validatedData.status'' ''validatedData.isActive'' line3 else line3);
          line5 = (if contains ''res.status(500).json({ message:'' line4 \<and> \<not> contains ''return'' line4
                   then add_return line4 else line4);
          line6 = (if contains ''res.status(201).json'' line5 \<and> i \<ge> 318 \<and> i \<le> 327
                      \<and> \<not> contains ''return'' line5
                   then add_return line5 else line5);
          line7 = (if contains ''res.json({'' line6 \<and> i \<ge> 430 \<and> i \<le> 433
                      \<and> \<not> contains ''return'' line6
                   then add_return line6 else line6);
          line8 = (if contains ''res.json({ message:'' line7 \<and> i \<ge> 488 \<and> i \<le> 492
                      \<and> \<not> contains ''return'' line7
                   then add_return line7 else line7);
          line9 = (if contains ''res.json({ message:'' line8 \<and> i \<ge> 545 \<and> i \<le> 549
                      \<and> \<not> contains ''return'' line8
                   then add_return line8 else line8)
      in line9)"

text \<open>
  The main loop: \<open>i\<close> is the index into the input \<open>lines\<close>, \<open>new_lines\<close> the output built
  so far. The three branches that end an iteration are the source's two
  \<open>append; i += 1; continue\<close> branches, the block-skipping branch and the final append.
\<close>

function fix_loop :: "line list \<Rightarrow> nat \<Rightarrow> line list \<Rightarrow> line list" where
  "fix_loop lines i new_lines =
     (if i < length lines then
        (let line1 = rewrite_head i (lines ! i) in
         if i = 69 \<and> contains ''status: true,'' line1 then
           fix_loop lines (i + 1) (new_lines @ [replace ''status: true,'' [] line1])
         else if i \<ge> 80 \<and> i \<le> 85 \<and> contains ''_count:'' line1 then
           fix_loop lines (skip_block lines i 0) new_lines
         else
           (let line2 = rewrite_mid lines i line1 in
            if i \<in> set [287, 383] \<and> contains ''status: true,'' line2 then
              fix_loop lines (i + 1) (new_lines @ [replace ''status: true,'' [] line2])
            else
              fix_loop lines (i + 1) (new_lines @ [rewrite_tail i line2])))
      else new_lines)"
  by pat_completeness auto

lemma skip_block_past_end: "\<not> i < length lines \<Longrightarrow> skip_block lines i depth = i"
  by (subst skip_block.simps) simp

lemma skip_block_gt: "i < length lines \<Longrightarrow> i < skip_block lines i depth"
proof (induction lines i depth rule: skip_block.induct)
  case (1 lines i depth)
  define d1 where "d1 = (if contains ''{'' (lines ! i) then depth + 1 else depth)"
  have step: "i < skip_block lines (i + 1) d"
    if "(contains ''}'' (lines ! i) \<and> d = d1 - 1 \<and> d1 - 1 \<noteq> 0)
        \<or> (\<not> contains ''}'' (lines ! i) \<and> d = d1)" for d
  proof (cases "i + 1 < length lines")
    case True
    have "i + 1 < skip_block lines (i + 1) d"
      using that "1.IH"(1)[OF "1.prems" d1_def _ _ True] "1.IH"(2)[OF "1.prems" d1_def _ True]
      by blast
    then show ?thesis by simp
  next
    case False
    then show ?thesis by (simp add: skip_block_past_end)
  qed
  show ?case
  proof (cases "contains ''}'' (lines ! i)")
    case True
    show ?thesis
    proof (cases "d1 - 1 = 0")
      case z: True
      have "skip_block lines i depth = i + 1"
        using "1.prems" True z by (subst skip_block.simps) (simp add: d1_def Let_def)
      then show ?thesis by simp
    next
      case nz: False
      have "skip_block lines i depth = skip_block lines (i + 1) (d1 - 1)"
        using "1.prems" True nz by (subst skip_block.simps) (simp add: d1_def Let_def)
      then show ?thesis using step[of "d1 - 1"] True nz by simp
    qed
  next
    case False
    have "skip_block lines i depth = skip_block lines (i + 1) d1"
      using "1.prems" False by (subst skip_block.simps) (simp add: d1_def Let_def)
    then show ?thesis using step[of d1] False by simp
  qed
qed

termination fix_loop
proof (relation "measure (\<lambda>(lines, i, new_lines). length lines - i)")
  show "wf (measure (\<lambda>(lines, i, new_lines). length lines - i))" by simp
next
  fix lines :: "line list" and i :: nat and new_lines :: "line list" and x
  assume "i < length lines"
  then show "((lines, i + 1, new_lines @ [replace ''status: true,'' [] x]), lines, i, new_lines)
      \<in> measure (\<lambda>(lines, i, new_lines). length lines - i)" by simp
next
  fix lines :: "line list" and i :: nat and new_lines :: "line list"
  assume "i < length lines"
  then show "((lines, skip_block lines i 0, new_lines), lines, i, new_lines)
      \<in> measure (\<lambda>(lines, i, new_lines). length lines - i)"
    using skip_block_gt[of i lines 0] by simp
next
  fix lines :: "line list" and i :: nat and new_lines :: "line list" and x
  assume "i < length lines"
  then show "((lines, i + 1, new_lines @ [replace ''status: true,'' [] x]), lines, i, new_lines)
      \<in> measure (\<lambda>(lines, i, new_lines). length lines - i)" by simp
next
  fix lines :: "line list" and i :: nat and new_lines :: "line list" and x
  assume "i < length lines"
  then show "((lines, i + 1, new_lines @ [rewrite_tail i x]), lines, i, new_lines)
      \<in> measure (\<lambda>(lines, i, new_lines). length lines - i)" by simp
qed

declare fix_loop.simps [simp del]

definition fix_lines :: "line list \<Rightarrow> line list" where
  "fix_lines lines = fix_loop lines 0 []"

text \<open>The text the script writes for the text it read.\<close>

definition fix_user_controller_text :: "string \<Rightarrow> string" where
  "fix_user_controller_text content = join ''\<newline>'' (fix_lines (splitlines content))"


text \<open>
  One iteration of the main loop seen as a function of the input lines and the index alone:
  the lines it appends and the index it goes on with.
\<close>

definition step :: "line list \<Rightarrow> nat \<Rightarrow> line list \<times> nat" where
  "step lines i =
     (let line1 = rewrite_head i (lines ! i) in
      if i = 69 \<and> contains ''status: true,'' line1 then
        ([replace ''status: true,'' [] line1], i + 1)
      else if i \<ge> 80 \<and> i \<le> 85 \<and> contains ''_count:'' line1 then
        ([], skip_block lines i 0)
      else
        (let line2 = rewrite_mid lines i line1 in
         if i \<in> set [287, 383] \<and> contains ''status: true,'' line2 then
           ([replace ''status: true,'' [] line2], i + 1)
         else ([rewrite_tail i line2], i + 1)))"


section \<open>Regular-expression substitution (\<open>re.sub\<close>)\<close>

text \<open>
  The patterns of the scripts use literal text, the classes \<open>\s\<close>, \<open>[^\n]\<close>, \<open>[^,\n]\<close>
  and \<open>[^}]\<close> under the greedy quantifiers \<open>*\<close> and \<open>+\<close>, alternation and capturing
  groups. A pattern is written as its syntax tree.
\<close>

datatype cls = WS | Not "char list"

fun in_cls :: "cls \<Rightarrow> char \<Rightarrow> bool" where
  "in_cls WS c = isspace c"
| "in_cls (Not cs) c = (c \<notin> set cs)"

datatype rx = Lit string | Star cls | Plus cls | Cat rx rx | Alt rx rx | Grp rx

fun seq :: "rx list \<Rightarrow> rx" where
  "seq [] = Lit []"
| "seq [r] = r"
| "seq (r # rs) = Cat r (seq rs)"

text \<open>
  \<open>rx_match r s g\<close> lists the ways \<open>r\<close> matches at the start of \<open>s\<close>, in the order in
  which the backtracking matcher of \<open>re\<close> tries them: the left alternative before the right
  one, the longest repetition first. Each way is the text left after the match and the
  captured groups, \<open>g\<close> being the groups captured before. The patterns of the scripts have no
  nested groups and no group inside an alternative, so the groups are listed in the order
  of their numbers.
\<close>

fun rx_match :: "rx \<Rightarrow> string \<Rightarrow> string list \<Rightarrow> (string \<times> string list) list" where
  "rx_match (Lit l) s g = (if prefix l s then [(drop (length l) s, g)] else [])"
| "rx_match (Star c) s g =
     map (\<lambda>k. (drop k s, g)) (rev [0 ..< Suc (length (takeWhile (in_cls c) s))])"
| "rx_match (Plus c) s g =
     map (\<lambda>k. (drop k s, g)) (rev [1 ..< Suc (length (takeWhile (in_cls c) s))])"
| "rx_match (Cat a b) s g = concat (map (\<lambda>(s', g'). rx_match b s' g') (rx_match a s g))"
| "rx_match (Alt a b) s g = rx_match a s g @ rx_match b s g"
| "rx_match (Grp a) s g =
     map (\<lambda>(s', g'). (s', g' @ [take (length s - length s') s])) (rx_match a s g)"

text \<open>
  A replacement template after \<open>re\<close> has read its escapes: literal text and group
  references \<open>\k\<close>.
\<close>

datatype tpl = T string | G nat

fun expand :: "tpl list \<Rightarrow> string list \<Rightarrow> string" where
  "expand [] g = []"
| "expand (T t # ts) g = t @ expand ts g"
| "expand (G k # ts) g = (if 0 < k \<and> k \<le> length g then g ! (k - 1) else []) @ expand ts g"

text \<open>
  \<open>re.subn(pattern, repl, string, count)\<close>, scanning from the left; \<open>n\<close> counts the
  replacements made and \<open>count = 0\<close> means no limit. At each position the first way of
  matching is taken; without a match the character is copied. After an empty match the
  next match at the same position must not be empty (\<open>must_advance\<close>). The result is the
  new text and the number of replacements. The branch that returns \<open>(s, n)\<close> under
  \<open>must_advance\<close> is never taken, since the filter has removed the empty matches; it is
  there for the termination argument.
\<close>

function re_subn_go :: "rx \<Rightarrow> tpl list \<Rightarrow> nat \<Rightarrow> nat \<Rightarrow> bool \<Rightarrow> string \<Rightarrow> string \<times> nat" where
  "re_subn_go r t count n must_advance s =
     (if count \<noteq> 0 \<and> n \<ge> count then (s, n)
      else
        (case filter (\<lambda>(s', g). \<not> must_advance \<or> length s' < length s) (rx_match r s []) of
           [] \<Rightarrow>
             (case s of
                [] \<Rightarrow> ([], n)
              | c # cs \<Rightarrow> (let (out, m) = re_subn_go r t count n False cs in (c # out, m)))
         | (s', g) # _ \<Rightarrow>
             (if length s' < length s
              then (let (out, m) = re_subn_go r t count (n + 1) False s' in (expand t g @ out, m))
              else if must_advance then (s, n)
              else (let (out, m) = re_subn_go r t count (n + 1) True s in (expand t g @ out, m)))))"
  by pat_completeness auto
termination
  by (relation "measure (\<lambda>(r, t, count, n, must_advance, s).
        2 * length s + (if must_advance then 0 else 1))") auto

declare re_subn_go.simps [simp del]

definition re_subn :: "rx \<Rightarrow> tpl list \<Rightarrow> nat \<Rightarrow> string \<Rightarrow> string \<times> nat" where
  "re_subn r t count s = re_subn_go r t count 0 False s"

definition re_sub :: "rx \<Rightarrow> tpl list \<Rightarrow> nat \<Rightarrow> string \<Rightarrow> string" where
  "re_sub r t count s = fst (re_subn r t count s)"


section \<open>The regex rule chains (fix\_errors.py, fix\_notifications.py)\<close>

text \<open>
  Each function is the chain of \<open>re.sub\<close> calls the script applies to the text it read, in
  the order of the source. An apostrophe that ends a constant is written \<open>[CHR 0x27]\<close>, a
  double quote \<open>CHR 0x22\<close>.
\<close>

abbreviation (input) orderBy_rx :: rx where
  "orderBy_rx \<equiv> Lit ''orderBy: { createdAt: 'desc' }''"

abbreviation (input) orderBy_tpl :: "tpl list" where
  "orderBy_tpl \<equiv> [T ''orderBy: { timestamp: 'desc' }'']"

definition fix_status_controller_text :: "string \<Rightarrow> string" where
  "fix_status_controller_text content0 =
     (let content1 = re_sub orderBy_rx orderBy_tpl 0 content0;
          content2 = re_sub (seq [Lit ''createdAt: true,'', Star WS, Lit ''user:''])
                       [T ''timestamp: true,\<newline>        user:''] 0 content1;
          content3 = re_sub (seq [Lit ''userId: '',
                         Grp (Alt (Lit ''validatedData.assignToId'')
                             (Alt (Lit ''document.createdById'') (Lit ''doc.createdById'')))])
                       [T ''recipientUserId: '', G 1] 0 content2;
          content4 = re_sub (Lit ''select: { id: true, fullName: true, role: true, status: true }'')
                       [T ''select: { id: true, fullName: true, role: true, isActive: true }''] 0
                       content3;
          content5 = re_sub (Lit (''assignee.status !== 'ACTIVE'' @ [CHR 0x27]))
                       [T ''!assignee.isActive''] 0 content4
      in content5)"

text \<open>
  The \<open>fix_user_controller\<close> of fix\_errors.py (the line-indexed script has the same name).
  Its rules that remove \<open>status: true\<close> from a selection and that add the \<open>_count\<close>
  block are named, for the properties below.
\<close>

abbreviation (input) status_select_rx :: rx where
  "status_select_rx \<equiv> seq [Lit '','', Star WS, Lit ''status: true'']"

abbreviation (input) count_rx :: rx where
  "count_rx \<equiv> Grp (seq [Lit ''departmentId: true,'', Star WS, Lit ''createdAt: true,'', Star WS,
                        Lit ''updatedAt: true,''])"

abbreviation (input) count_tpl :: "tpl list" where
  "count_tpl \<equiv> [G 1, T ''\<newline>          _count: {\<newline>            select: {\<newline>              createdDocuments: true,\<newline>              assignedDocuments: true\<newline>            }\<newline>          },'']"

definition fix_user_controller_regex_text :: "string \<Rightarrow> string" where
  "fix_user_controller_regex_text content0 =
     (let content1 = re_sub
            (Lit ''import { PrismaClient, Role, UserStatus } from '../generated/prisma';'')
            [T ''import { PrismaClient, UserRole } from '../generated/prisma';''] 0 content0;
          content2 = re_sub orderBy_rx orderBy_tpl 0 content1;
          content3 = re_sub (seq [Lit ''createdAt: true,'', Star WS,
                         Grp (Alt (Lit ''details'') (Lit ''user'')), Lit '':''])
                       [T ''timestamp: true,\<newline>          '', G 1, T '':''] 0 content2;
          content4 = re_sub (seq [Lit ''userId: '',
                         Grp (Alt (Lit ''newUser.id'')
                             (Alt (Lit ''updatedUser.id'') (Lit ''existingUser.id'')))])
                       [T ''recipientUserId: '', G 1] 0 content3;
          content5 = re_sub (Lit ''status: z.nativeEnum(UserStatus).optional()'')
                       [T ''isActive: z.boolean().optional()''] 0 content4;
          content6 = re_sub (Lit status_ACTIVE) [T ''isActive: true''] 0 content5;
          content7 = re_sub (Lit ''errors: error.errors'') [T ''errors: error.issues''] 0 content6;
          content8 = re_sub status_select_rx [] 0 content7;
          content9 = re_sub count_rx count_tpl 0 content8;
          content10 = re_sub
            (Grp (seq [Lit ''});'', Star WS, Lit ''}'', Star WS, Lit ''catch (error) {'', Star WS,
                       Lit ''console.error('Error fetching users:', error);'', Star WS,
                       Lit ''res.status(500).json({ message: 'Internal server error' });'',
                       Star WS, Lit ''}'', Star WS, Lit ''};'']))
            [T ''  } catch (error) {\<newline>    console.error('Error fetching users:', error);\<newline>    return res.status(500).json({ message: 'Internal server error' });\<newline>  }\<newline>};'']
            1 content9
      in content10)"

definition fix_search_controller_text :: "string \<Rightarrow> string" where
  "fix_search_controller_text content0 =
     (let content1 = re_sub (Lit (''mode: 'insensitive'' @ [CHR 0x27]))
                       [T ''mode: 'insensitive' as const''] 0 content0;
          content2 = re_sub (Lit ''categories: {'') [T ''category: {''] 0 content1;
          content3 = re_sub (seq [Lit ''role: true,'', Star WS, Lit ''status: true,''])
                       [T ''role: true,''] 0 content2;
          content4 = re_sub (Lit status_ACTIVE) [T ''isActive: true''] 0 content3;
          content5 = re_sub
            (Grp (seq [Plus WS, Lit ''users: users.map(user => ({'', Plus (Not ''}''),
                       Lit ''department: user.department?.name'']))
            [G 1] 0 content4;
          content6 = re_sub
            (Lit ''{ content: { contains: query, mode: 'insensitive' as const } },'')
            [] 0 content5
      in content6)"

definition fix_auth_controller_text :: "string \<Rightarrow> string" where
  "fix_auth_controller_text content0 =
     re_sub (Lit ''return res.status(429).json(response);'')
       [T ''res.status(429).json(response);\<newline>      return;''] 1 content0"

abbreviation (input) next_rx :: rx where
  "next_rx \<equiv> Grp (seq [Lit ''next();'', Star WS, Lit ''};''])"

abbreviation (input) next_tpl :: "tpl list" where
  "next_tpl \<equiv> [T ''return next();\<newline>};'']"

definition fix_upload_middleware_text :: "string \<Rightarrow> string" where
  "fix_upload_middleware_text content0 = re_sub next_rx next_tpl 0 content0"

definition fix_notifications_text :: "string \<Rightarrow> string" where
  "fix_notifications_text content0 =
     re_sub
       (seq [Grp (Plus WS), Lit ''recipientUserId: '', Grp (Plus (Not '',\<newline>'')),
             Lit '',\<newline>'', Plus WS, Lit ''title: '', Plus (Not ''\<newline>''),
             Lit '',\<newline>'', Plus WS, Lit ''message: '', Grp (Plus (Not ''\<newline>'')),
             Lit '',\<newline>'', Plus WS, Lit ''type: '', Plus (Not ''\<newline>''),
             Lit '',\<newline>'', Plus WS, Lit ''relatedId: '', Grp (Plus (Not ''\<newline>''))])
       [G 1, T ''recipientUserId: '', G 2, T '',\<newline>'', G 1, T ''message: '', G 3,
        T '',\<newline>'', G 1, T ''messageAr: '', G 3, T '', // TODO: Add Arabic translation\<newline>'',
        G 1, T ''documentId: '', G 4, T '',\<newline>'', G 1,
        T (''departmentId: currentUser.departmentId || '' @ [CHR 0x22, CHR 0x22])]
       0 content0"


section \<open>Files, output and the sessions\<close>

text \<open>
  The world a script runs in: the text of every file that exists and the lines printed so
  far. The text of a file is the \<open>str\<close> that \<open>read_text\<close> returns and
  \<open>write_text\<close> stores; the UTF-8 coding and the newline translation of Python's text
  mode lie below this model. A file that does not exist makes \<open>read_text\<close> raise; the
  exception is a value, and an outcome \<open>Raised e w\<close> carries the world at the moment of
  the exception.
\<close>

type_synonym path = string

record world =
  files :: "path \<rightharpoonup> string"
  stdout :: "string list"

datatype error = FileNotFoundError path

datatype outcome = Done world | Raised error world

definition read_text :: "path \<Rightarrow> world \<Rightarrow> error + string" where
  "read_text p w = (case files w p of None \<Rightarrow> Inl (FileNotFoundError p) | Some content \<Rightarrow> Inr content)"

text \<open>
  \<open>Path.write_text\<close> is \<open>open(mode='w')\<close>, which creates the file or cuts it to length
  zero, followed by the write of the data to that same file.
\<close>

definition open_w :: "path \<Rightarrow> world \<Rightarrow> world" where
  "open_w p w = w\<lparr>files := (files w)(p \<mapsto> [])\<rparr>"

definition write_data :: "path \<Rightarrow> string \<Rightarrow> world \<Rightarrow> world" where
  "write_data p data w = w\<lparr>files := (files w)(p \<mapsto> data)\<rparr>"

definition print_line :: "string \<Rightarrow> world \<Rightarrow> world" where
  "print_line msg w = w\<lparr>stdout := stdout w @ [msg]\<rparr>"

text \<open>
  Every patcher function of the scripts has the same shape: read the file, compute the new
  text, \<open>write_text\<close> it to the path it was read from, print \<open>Fixed <path>\<close>.
  \<open>patch_file\<close> gives the worlds such a function passes through once the read has
  succeeded: after the open, after the write, after the print.
\<close>

definition patch_file :: "path \<Rightarrow> (string \<Rightarrow> string) \<Rightarrow> world \<Rightarrow> error + world list" where
  "patch_file file_path transform w =
     (case read_text file_path w of
        Inl e \<Rightarrow> Inl e
      | Inr content \<Rightarrow>
          (let w1 = open_w file_path w;
               w2 = write_data file_path (transform content) w1;
               w3 = print_line (''Fixed '' @ file_path) w2
           in Inr [w1, w2, w3]))"

definition run :: "(world \<Rightarrow> error + world list) \<Rightarrow> world \<Rightarrow> outcome" where
  "run steps w = (case steps w of Inl e \<Rightarrow> Raised e w | Inr ws \<Rightarrow> Done (last ws))"

text \<open>Sequencing of statements: an exception ends the sequence with the world as it is.\<close>

fun and_then :: "outcome \<Rightarrow> (world \<Rightarrow> outcome) \<Rightarrow> outcome" where
  "and_then (Done w) f = f w"
| "and_then (Raised e w) f = Raised e w"

abbreviation (input) statusController_ts :: path where
  "statusController_ts \<equiv> ''backend/src/controllers/statusController.ts''"

abbreviation (input) userController_ts :: path where
  "userController_ts \<equiv> ''backend/src/controllers/userController.ts''"

abbreviation (input) searchController_ts :: path where
  "searchController_ts \<equiv> ''backend/src/controllers/searchController.ts''"

abbreviation (input) authController_ts :: path where
  "authController_ts \<equiv> ''backend/src/controllers/authController.ts''"

abbreviation (input) upload_ts :: path where
  "upload_ts \<equiv> ''backend/src/middleware/upload.ts''"

definition fix_status_controller :: "world \<Rightarrow> outcome" where
  "fix_status_controller = run (patch_file statusController_ts fix_status_controller_text)"

definition fix_user_controller_regex :: "world \<Rightarrow> outcome" where
  "fix_user_controller_regex = run (patch_file userController_ts fix_user_controller_regex_text)"

definition fix_search_controller :: "world \<Rightarrow> outcome" where
  "fix_search_controller = run (patch_file searchController_ts fix_search_controller_text)"

definition fix_auth_controller :: "world \<Rightarrow> outcome" where
  "fix_auth_controller = run (patch_file authController_ts fix_auth_controller_text)"

definition fix_upload_middleware :: "world \<Rightarrow> outcome" where
  "fix_upload_middleware = run (patch_file upload_ts fix_upload_middleware_text)"

text \<open>The \<open>__main__\<close> block of fix\_errors.py.\<close>

definition fix_errors_main :: "world \<Rightarrow> outcome" where
  "fix_errors_main w =
     and_then (and_then (and_then (and_then (and_then (fix_status_controller w)
       fix_user_controller_regex)
       fix_search_controller)
       fix_auth_controller)
       fix_upload_middleware)
       (\<lambda>w'. Done (print_line ''\<newline>All fixes applied!'' w'))"

text \<open>fix\_notifications.py: the function and the module-level calls.\<close>

definition fix_notifications :: "path \<Rightarrow> world \<Rightarrow> outcome" where
  "fix_notifications file_path = run (patch_file file_path fix_notifications_text)"

definition fix_notifications_main :: "world \<Rightarrow> outcome" where
  "fix_notifications_main w =
     and_then (and_then (fix_notifications statusController_ts w)
       (fix_notifications userController_ts))
       (\<lambda>w'. Done (print_line ''All notifications fixed!'' w'))"

text \<open>fix\_user\_controller.py: the function and its \<open>__main__\<close> block.\<close>

definition fix_user_controller :: "world \<Rightarrow> outcome" where
  "fix_user_controller = run (patch_file userController_ts fix_user_controller_text)"

definition fix_user_controller_main :: "world \<Rightarrow> outcome" where
  "fix_user_controller_main w =
     and_then (fix_user_controller w) (\<lambda>w'. Done (print_line ''User controller fixed!'' w'))"

section \<open>Notions used to state the properties\<close>

text \<open>
  The texts whose presence in a line the rules of fix\_user\_controller.py test. A line that
  contains none of them is \<open>inert\<close>: no rule can fire on it, at any index.
\<close>

definition guard_texts :: "string list" where
  "guard_texts = [''Role, UserStatus'', ''z.nativeEnum(Role)'', ''z.nativeEnum(UserStatus)'',
     ''if (status) where.status = status;'', ''status: true,'', ''_count:'',
     ''orderBy: { createdAt:'', ''createdAt: true,'', ''userId: newUser.id,'',
     ''userId: updatedUser.id,'', ''userId: existingUser.id,'', status_ACTIVE,
     ''status: true'', status_eq_INACTIVE, status_INACTIVE, ''where: { status: 'ACTIVE' }'',
     ''errors: error.errors'', ''validatedData.status'', ''res.status(500).json({ message:'',
     ''res.status(201).json'', ''res.json({'', ''res.json({ message:'']"

definition inert :: "line \<Rightarrow> bool" where
  "inert l = list_all (\<lambda>t. \<not> contains t l) guard_texts"

text \<open>
  The inner loop of the \<open>_count\<close> rule seen on the lines from the current one on: how
  many lines it passes.
\<close>

fun skip_count :: "line list \<Rightarrow> int \<Rightarrow> nat" where
  "skip_count [] depth = 0"
| "skip_count (l # ls) depth =
     (let depth1 = (if contains ''{'' l then depth + 1 else depth) in
      if contains ''}'' l then (if depth1 - 1 = 0 then 1 else 1 + skip_count ls (depth1 - 1))
      else 1 + skip_count ls depth1)"

text \<open>
  The six-line block with two nested brace groups that fix\_errors.py inserts and the
  duplicate \<open>_count\<close> rule is meant to remove.
\<close>

definition count_block :: "line list" where
  "count_block = [''          _count: {'', ''            select: {'',
     ''              createdDocuments: true,'', ''              assignedDocuments: true'',
     ''            }'', ''          },'']"

text \<open>Opening braces minus closing braces of a text.\<close>

definition count_char :: "char \<Rightarrow> string \<Rightarrow> nat" where
  "count_char c s = length (filter (\<lambda>x. x = c) s)"

definition brace_balance :: "string \<Rightarrow> int" where
  "brace_balance s = int (count_char CHR ''{'' s) - int (count_char CHR ''}'' s)"


text \<open>A text whose only line boundaries are line feeds.\<close>

definition only_lf :: "string \<Rightarrow> bool" where
  "only_lf s = list_all (\<lambda>ch. is_linebreak ch = (ch = CHR ''\<newline>'')) s"

text \<open>
  The positions at which \<open>pat\<close> occurs in \<open>s\<close>, overlapping occurrences included.
\<close>

fun occurrences :: "string \<Rightarrow> string \<Rightarrow> nat list" where
  "occurrences pat [] = (if pat = [] then [0] else [])"
| "occurrences pat (c # cs) =
     (if prefix pat (c # cs) then [0] else []) @ map Suc (occurrences pat cs)"

text \<open>
  The patchers of the \<open>__main__\<close> block of fix\_errors.py as a list of path and rule
  chain, and the run of such a list in order; \<open>fix_errors_main_session\<close> below shows that
  the block is this run followed by its last print.
\<close>

definition fix_errors_patchers :: "(path \<times> (string \<Rightarrow> string)) list" where
  "fix_errors_patchers =
     [(statusController_ts, fix_status_controller_text),
      (userController_ts, fix_user_controller_regex_text),
      (searchController_ts, fix_search_controller_text),
      (authController_ts, fix_auth_controller_text),
      (upload_ts, fix_upload_middleware_text)]"

fun session :: "(path \<times> (string \<Rightarrow> string)) list \<Rightarrow> world \<Rightarrow> outcome" where
  "session [] w = Done w"
| "session ((p, f) # ps) w = and_then (run (patch_file p f) w) (session ps)"



text \<open>
  An ordered sequence of rewrite rules as a value (pattern, replacement, count), and its
  evaluation on a buffer from the first rule to the last. \<open>status_rules\<close> and
  \<open>notification_rules\<close> list the rules of \<open>fix_status_controller\<close> and of
  \<open>fix_notifications\<close> in the order of the source.
\<close>

type_synonym rule = "rx \<times> tpl list \<times> nat"




section \<open>Properties of the line-indexed patcher\<close>

lemma fix_loop_step:
  "fix_loop lines i acc =
     (if i < length lines then fix_loop lines (snd (step lines i)) (acc @ fst (step lines i))
      else acc)"
proof (cases "i < length lines")
  case False
  then show ?thesis by (subst fix_loop.simps) simp
next
  case True
  define l1 where "l1 = rewrite_head i (lines ! i)"
  define l2 where "l2 = rewrite_mid lines i l1"
  define A where "A \<longleftrightarrow> i = 69 \<and> contains ''status: true,'' l1"
  define B where "B \<longleftrightarrow> i \<ge> 80 \<and> i \<le> 85 \<and> contains ''_count:'' l1"
  define C where "C \<longleftrightarrow> i \<in> set [287, 383] \<and> contains ''status: true,'' l2"
  have loop: "fix_loop lines i acc =
      (if A then fix_loop lines (i + 1) (acc @ [replace ''status: true,'' [] l1])
       else if B then fix_loop lines (skip_block lines i 0) acc
       else if C then fix_loop lines (i + 1) (acc @ [replace ''status: true,'' [] l2])
       else fix_loop lines (i + 1) (acc @ [rewrite_tail i l2]))"
    unfolding A_def B_def C_def l2_def l1_def
    by (subst fix_loop.simps) (simp only: True if_True Let_def)
  have st: "step lines i =
      (if A then ([replace ''status: true,'' [] l1], i + 1)
       else if B then ([], skip_block lines i 0)
       else if C then ([replace ''status: true,'' [] l2], i + 1)
       else ([rewrite_tail i l2], i + 1))"
    unfolding A_def B_def C_def l2_def l1_def step_def
    by (simp only: Let_def)
  show ?thesis
    by (cases A; cases B; cases C) (simp_all only: loop st True if_True if_False fst_conv snd_conv append_Nil2)
qed

lemma step_advances: "i < length lines \<Longrightarrow> i < snd (step lines i)"
proof -
  assume lt: "i < length lines"
  define l1 where "l1 = rewrite_head i (lines ! i)"
  define l2 where "l2 = rewrite_mid lines i l1"
  define A where "A \<longleftrightarrow> i = 69 \<and> contains ''status: true,'' l1"
  define B where "B \<longleftrightarrow> i \<ge> 80 \<and> i \<le> 85 \<and> contains ''_count:'' l1"
  define C where "C \<longleftrightarrow> i \<in> set [287, 383] \<and> contains ''status: true,'' l2"
  have st: "snd (step lines i) = (if \<not> A \<and> B then skip_block lines i 0 else i + 1)"
    unfolding A_def B_def C_def l2_def l1_def step_def
    by (simp only: Let_def if_distrib[of snd] snd_conv if_cancel) (simp only: if_cancel split: if_split, blast)
  show ?thesis using skip_block_gt[OF lt, of 0] by (simp add: st)
qed

lemma fix_loop_acc: "fix_loop lines i acc = acc @ fix_loop lines i []"
proof (induction "length lines - i" arbitrary: i acc rule: less_induct)
  case less
  show ?case
  proof (cases "i < length lines")
    case True
    let ?j = "snd (step lines i)" and ?e = "fst (step lines i)"
    have lt: "length lines - ?j < length lines - i"
      using True step_advances[OF True] by simp
    have "fix_loop lines i acc = fix_loop lines ?j (acc @ ?e)"
      using True by (subst fix_loop_step) simp
    also have "\<dots> = (acc @ ?e) @ fix_loop lines ?j []"
      by (rule less[OF lt])
    also have "\<dots> = acc @ fix_loop lines ?j ([] @ ?e)"
      using less[OF lt, of ?e] by simp
    also have "fix_loop lines ?j ([] @ ?e) = fix_loop lines i []"
      using True by (subst (2) fix_loop_step) simp
    finally show ?thesis .
  next
    case False
    then show ?thesis by (subst fix_loop_step, subst (2) fix_loop_step) simp
  qed
qed


lemma step_inert:
  assumes "inert (lines ! i)"
  shows "step lines i = ([lines ! i], i + 1)"
proof -
  have n: "\<not> contains ''Role, UserStatus'' (lines ! i)" "\<not> contains ''z.nativeEnum(Role)'' (lines ! i)"
    "\<not> contains ''z.nativeEnum(UserStatus)'' (lines ! i)"
    "\<not> contains ''if (status) where.status = status;'' (lines ! i)"
    "\<not> contains ''status: true,'' (lines ! i)" "\<not> contains ''_count:'' (lines ! i)"
    "\<not> contains ''orderBy: { createdAt:'' (lines ! i)" "\<not> contains ''createdAt: true,'' (lines ! i)"
    "\<not> contains ''userId: newUser.id,'' (lines ! i)" "\<not> contains ''userId: updatedUser.id,'' (lines ! i)"
    "\<not> contains ''userId: existingUser.id,'' (lines ! i)" "\<not> contains status_ACTIVE (lines ! i)"
    "\<not> contains ''status: true'' (lines ! i)" "\<not> contains status_eq_INACTIVE (lines ! i)"
    "\<not> contains status_INACTIVE (lines ! i)" "\<not> contains ''where: { status: 'ACTIVE' }'' (lines ! i)"
    "\<not> contains ''errors: error.errors'' (lines ! i)" "\<not> contains ''validatedData.status'' (lines ! i)"
    "\<not> contains ''res.status(500).json({ message:'' (lines ! i)"
    "\<not> contains ''res.status(201).json'' (lines ! i)" "\<not> contains ''res.json({'' (lines ! i)"
    "\<not> contains ''res.json({ message:'' (lines ! i)"
    using assms unfolding inert_def guard_texts_def by simp_all
  have h: "rewrite_head i (lines ! i) = lines ! i"
    unfolding rewrite_head_def by (subst Let_def, simp only: n simp_thms if_False if_cancel)+
  have m: "rewrite_mid lines i (lines ! i) = lines ! i"
    unfolding rewrite_mid_def by (subst Let_def, simp only: n simp_thms if_False if_cancel)+
  have t: "rewrite_tail i (lines ! i) = lines ! i"
    unfolding rewrite_tail_def by (subst Let_def, simp only: n simp_thms if_False if_cancel)+
  show ?thesis
    unfolding step_def by (subst Let_def, simp only: h m t n simp_thms if_False if_cancel)+
qed

lemma fix_loop_inert_run:
  "list_all inert xs \<Longrightarrow>
   fix_loop (pre @ xs @ post) (length pre) acc
     = fix_loop (pre @ xs @ post) (length pre + length xs) (acc @ xs)"
proof (induction xs arbitrary: pre acc)
  case Nil
  then show ?case by simp
next
  case (Cons x xs)
  let ?lines = "pre @ (x # xs) @ post"
  have nth: "?lines ! length pre = x" by simp
  have lt: "length pre < length ?lines" by simp
  have i: "inert (?lines ! length pre)" using Cons.prems by (simp add: nth)
  have "fix_loop ?lines (length pre) acc = fix_loop ?lines (length pre + 1) (acc @ [x])"
    by (subst fix_loop_step) (simp only: lt if_True step_inert[OF i] fst_conv snd_conv nth)
  also have "\<dots> = fix_loop ((pre @ [x]) @ xs @ post) (length (pre @ [x])) (acc @ [x])"
    by simp
  also have "\<dots> = fix_loop ((pre @ [x]) @ xs @ post) (length (pre @ [x]) + length xs) ((acc @ [x]) @ xs)"
    using Cons.prems by (intro Cons.IH) simp
  finally show ?case by simp
qed

lemma skip_block_append:
  "skip_block (pre @ rest) (length pre) depth = length pre + skip_count rest depth"
proof (induction rest arbitrary: pre depth)
  case Nil
  then show ?case by (simp add: skip_block_past_end)
next
  case (Cons l ls)
  have ih: "skip_block (pre @ l # ls) (Suc (length pre)) d = Suc (length pre + skip_count ls d)" for d
    using Cons.IH[of "pre @ [l]" d] by simp
  show ?case
    by (subst skip_block.simps) (simp add: Let_def ih)
qed





lemma count_block_balance: "sum_list (map brace_balance count_block) = 0"
  by (simp add: count_block_def brace_balance_def count_char_def)

lemma skip_count_block: "skip_count (count_block @ post) 0 = 6"
  by (simp add: count_block_def)

lemma fix_loop_count_block:
  assumes "80 \<le> length pre" "length pre \<le> 85"
  shows "fix_loop (pre @ count_block @ post) (length pre) acc
    = fix_loop (pre @ count_block @ post) (length pre + 6) acc"
proof -
  let ?lines = "pre @ count_block @ post"
  let ?l = "''          _count: {''"
  have nth: "?lines ! length pre = ?l" by (simp add: count_block_def)
  have lt: "length pre < length ?lines" by (simp add: count_block_def)
  have h: "rewrite_head (length pre) ?l = ?l"
    using assms unfolding rewrite_head_def by (subst Let_def, simp)+
  have c: "contains ''_count:'' ?l" by simp
  have "step ?lines (length pre) = ([], skip_block ?lines (length pre) 0)"
    using assms unfolding step_def nth h by (subst Let_def) (simp only: c, simp)
  then show ?thesis
    by (subst fix_loop_step) (simp only: lt if_True fst_conv snd_conv append_Nil2 skip_block_append skip_count_block)
qed

lemma fix_loop_done: "fix_loop lines (length lines) acc = acc"
  by (subst fix_loop.simps) simp











lemma step_status_line:
  assumes "lines ! k = ''      status: true,''" and "k = 287 \<or> k = 293"
  shows "step lines k = ([if k = 287 then ''      '' else ''      status: true,''], k + 1)"
proof -
  let ?l = "''      status: true,''"
  have h: "rewrite_head j ?l = ?l" for j
    unfolding rewrite_head_def by (subst Let_def, simp)+
  have m: "rewrite_mid lines j ?l = ?l" for j
    unfolding rewrite_mid_def by (subst Let_def, simp)+
  have t: "rewrite_tail 293 ?l = ?l"
    unfolding rewrite_tail_def by (subst Let_def, simp)+
  have r: "replace ''status: true,'' [] ?l = ''      ''" by simp
  from assms(2) show ?thesis
  proof
    assume k: "k = 287"
    show ?thesis unfolding step_def assms(1)
      by (subst Let_def, simp add: k r h m)+
  next
    assume k: "k = 293"
    show ?thesis unfolding step_def assms(1)
      by (subst Let_def, simp add: k t h m)+
  qed
qed

lemma fix_loop_status_line:
  assumes "length pre = 287 \<or> length pre = 293"
  shows "fix_loop (pre @ [''      status: true,''] @ post) (length pre) acc
    = fix_loop (pre @ [''      status: true,''] @ post) (length pre + 1)
        (acc @ [if length pre = 287 then ''      '' else ''      status: true,''])"
proof -
  let ?lines = "pre @ [''      status: true,''] @ post"
  have nth: "?lines ! length pre = ''      status: true,''" by simp
  have lt: "length pre < length ?lines" by simp
  show ?thesis
    by (subst fix_loop_step) (simp only: lt if_True step_status_line[OF nth assms] fst_conv snd_conv)
qed


text \<open>
  Claim C10 (index guards count input lines). The index \<open>i\<close> of the main loop is a
  position in the input \<open>lines\<close>. First, what the loop appends from index \<open>i\<close> on does not
  depend on the output built so far, whatever its length. Second, a whole run: after the
  \<open>_count\<close> rule has dropped six lines at input index 80 to 85, the rule guarded by
  \<open>i in [287, 383]\<close> empties the \<open>status: true,\<close> line that stands at input index 287 (it
  is line 281 of the output), and leaves alone the one that stands at input index 293 (which
  is line 287 of the output).
\<close>

theorem index_guards_use_input_numbering:
  "(\<forall>acc. fix_loop lines i acc = acc @ fix_loop lines i [])
   \<and> (80 \<le> length pre \<and> length pre \<le> 85
        \<and> list_all inert pre \<and> list_all inert mid \<and> list_all inert post
        \<and> (length pre + 6 + length mid = 287 \<or> length pre + 6 + length mid = 293)
      \<longrightarrow> fix_lines (pre @ count_block @ mid @ [''      status: true,''] @ post)
            = pre @ mid
              @ [if length pre + 6 + length mid = 287 then ''      '' else ''      status: true,'']
              @ post)"
proof (intro conjI allI impI)
  fix acc
  show "fix_loop lines i acc = acc @ fix_loop lines i []" by (rule fix_loop_acc)
next
  assume a: "80 \<le> length pre \<and> length pre \<le> 85
        \<and> list_all inert pre \<and> list_all inert mid \<and> list_all inert post
        \<and> (length pre + 6 + length mid = 287 \<or> length pre + 6 + length mid = 293)"
  let ?s = "''      status: true,''"
  let ?x = "if length pre + 6 + length mid = 287 then ''      '' else ?s"
  let ?lines = "pre @ count_block @ mid @ [?s] @ post"
  have len: "length count_block = 6" by (simp add: count_block_def)
  have k: "length (pre @ count_block @ mid) = 287 \<or> length (pre @ count_block @ mid) = 293"
    using a by (simp add: len add.assoc)
  have x: "(if length (pre @ count_block @ mid) = 287 then ''      '' else ?s) = ?x"
    by (simp add: len add.assoc)
  have "fix_lines ?lines
      = fix_loop ([] @ pre @ (count_block @ mid @ [?s] @ post)) (length ([]::line list)) []"
    by (simp add: fix_lines_def)
  also have "\<dots> = fix_loop ([] @ pre @ (count_block @ mid @ [?s] @ post))
                      (length ([]::line list) + length pre) ([] @ pre)"
    using a by (intro fix_loop_inert_run) simp
  also have "\<dots> = fix_loop (pre @ count_block @ (mid @ [?s] @ post)) (length pre) pre" by simp
  also have "\<dots> = fix_loop (pre @ count_block @ (mid @ [?s] @ post)) (length pre + 6) pre"
    using a by (intro fix_loop_count_block) simp_all
  also have "\<dots> = fix_loop ((pre @ count_block) @ mid @ ([?s] @ post)) (length (pre @ count_block)) pre"
    by (simp add: len)
  also have "\<dots> = fix_loop ((pre @ count_block) @ mid @ ([?s] @ post))
                      (length (pre @ count_block) + length mid) (pre @ mid)"
    using a by (intro fix_loop_inert_run) simp
  also have "\<dots> = fix_loop ((pre @ count_block @ mid) @ [?s] @ post)
                      (length (pre @ count_block @ mid)) (pre @ mid)"
    by (simp add: add.assoc)
  also have "\<dots> = fix_loop ((pre @ count_block @ mid) @ [?s] @ post)
                      (length (pre @ count_block @ mid) + 1) ((pre @ mid) @ [?x])"
    unfolding x[symmetric] by (rule fix_loop_status_line[OF k])
  also have "\<dots> = fix_loop ((pre @ count_block @ mid @ [?s]) @ post @ [])
                      (length (pre @ count_block @ mid @ [?s])) (pre @ mid @ [?x])"
    by (simp add: add.assoc)
  also have "\<dots> = fix_loop ((pre @ count_block @ mid @ [?s]) @ post @ [])
                      (length (pre @ count_block @ mid @ [?s]) + length post)
                      ((pre @ mid @ [?x]) @ post)"
    using a by (intro fix_loop_inert_run) simp
  also have "\<dots> = pre @ mid @ [?x] @ post"
    using fix_loop_done[of "(pre @ count_block @ mid @ [?s]) @ post" "pre @ mid @ [?x] @ post"]
    by (simp add: add.assoc)
  finally show "fix_lines ?lines = pre @ mid @ [?x] @ post" .
qed

theorem index_guards_use_input_numbering_witness:
  "(\<forall>acc. fix_loop [''a'', ''b''] 1 acc = acc @ fix_loop [''a'', ''b''] 1 [])
   \<and> (80 \<le> length (replicate 80 ''x'') \<and> length (replicate 80 ''x'') \<le> 85
        \<and> list_all inert (replicate 80 ''x'') \<and> list_all inert (replicate 201 ''y'')
        \<and> list_all inert [''z'']
        \<and> (length (replicate 80 ''x'') + 6 + length (replicate 201 ''y'') = 287
            \<or> length (replicate 80 ''x'') + 6 + length (replicate 201 ''y'') = 293))
   \<and> fix_lines (replicate 80 ''x'' @ count_block @ replicate 201 ''y''
                  @ [''      status: true,''] @ [''z''])
       = replicate 80 ''x'' @ replicate 201 ''y'' @ [''      ''] @ [''z'']"
proof -
  have h: "80 \<le> length (replicate 80 ''x'') \<and> length (replicate 80 ''x'') \<le> 85
        \<and> list_all inert (replicate 80 ''x'') \<and> list_all inert (replicate 201 ''y'')
        \<and> list_all inert [''z'']
        \<and> (length (replicate 80 ''x'') + 6 + length (replicate 201 ''y'') = 287
            \<or> length (replicate 80 ''x'') + 6 + length (replicate 201 ''y'') = 293)"
    by code_simp
  have e: "length (replicate 80 ''x'') + 6 + length (replicate 201 ''y'') = 287" by simp
  note t = index_guards_use_input_numbering[of "[''a'', ''b'']" 1 "replicate 80 ''x''"
      "replicate 201 ''y''" "[''z'']"]
  from t have 1: "\<forall>acc. fix_loop [''a'', ''b''] 1 acc = acc @ fix_loop [''a'', ''b''] 1 []"
    by (rule conjunct1)
  from t h have "fix_lines (replicate 80 ''x'' @ count_block @ replicate 201 ''y''
                  @ [''      status: true,''] @ [''z''])
       = replicate 80 ''x'' @ replicate 201 ''y''
         @ [if length (replicate 80 ''x'') + 6 + length (replicate 201 ''y'') = 287
            then ''      '' else ''      status: true,''] @ [''z'']"
    by blast
  then have 2: "fix_lines (replicate 80 ''x'' @ count_block @ replicate 201 ''y''
                  @ [''      status: true,''] @ [''z''])
       = replicate 80 ''x'' @ replicate 201 ''y'' @ [''      ''] @ [''z'']"
    by (simp only: e if_True refl)

  from 1 h 2 show ?thesis by blast
qed

lemma run_patch_file:
  assumes "files w p = Some content"
  shows "run (patch_file p f) w
    = Done (w\<lparr>files := (files w)(p \<mapsto> f content), stdout := stdout w @ [''Fixed '' @ p]\<rparr>)"
  using assms
  by (simp add: run_def patch_file_def read_text_def open_w_def write_data_def print_line_def Let_def)

lemma run_patch_file_missing:
  assumes "files w p = None"
  shows "run (patch_file p f) w = Raised (FileNotFoundError p) w"
  using assms by (simp add: run_def patch_file_def read_text_def)

lemma splitlines_go_nonempty: "splitlines_go cur (s @ ''\<newline>'') \<noteq> []"
  by (induction s arbitrary: cur) (auto simp: is_linebreak_def)

lemma join_Cons: "xs \<noteq> [] \<Longrightarrow> join sep (x # xs) = x @ sep @ join sep xs"
  by (cases xs) simp_all

lemma join_splitlines_go:
  "only_lf s \<Longrightarrow> join ''\<newline>'' (splitlines_go cur (s @ ''\<newline>'')) = cur @ s"
proof (induction s arbitrary: cur)
  case Nil
  then show ?case by (simp add: is_linebreak_def)
next
  case (Cons x xs)
  have o: "only_lf xs" using Cons.prems by (simp add: only_lf_def)
  show ?case
  proof (cases "x = CHR ''\<newline>''")
    case True
    then show ?thesis
      using Cons.IH[OF o, of "[]"] splitlines_go_nonempty[of "[]" xs]
      by (simp add: is_linebreak_def join_Cons)
  next
    case False
    then have nb: "\<not> is_linebreak x" using Cons.prems by (simp add: only_lf_def)
    then have "x \<noteq> CHR 0x0D" by (auto simp: is_linebreak_def)
    then show ?thesis using nb Cons.IH[OF o, of "cur @ [x]"] by simp
  qed
qed

lemma join_newline_terminated:
  "xs \<noteq> [] \<Longrightarrow> join ''\<newline>'' xs @ ''\<newline>'' = concat (map (\<lambda>l. l @ ''\<newline>'') xs)"
  by (induction "''\<newline>''" xs rule: join.induct) simp_all

lemma step_first_line: "fst (step lines 0) \<noteq> []"
  unfolding step_def by (subst Let_def, simp)+

lemma fix_lines_nonempty: "lines \<noteq> [] \<Longrightarrow> fix_lines lines \<noteq> []"
proof -
  assume "lines \<noteq> []"
  then have "fix_lines lines = fix_loop lines (snd (step lines 0)) ([] @ fst (step lines 0))"
    unfolding fix_lines_def by (subst fix_loop_step) simp
  also have "\<dots> = fst (step lines 0) @ fix_loop lines (snd (step lines 0)) []"
    using fix_loop_acc[of lines "snd (step lines 0)" "fst (step lines 0)"] by simp
  finally show ?thesis using step_first_line by simp
qed

text \<open>
  Claim C9 (the final newline is not written back). The script writes the kept lines
  joined by newlines, with nothing after the last one. For a file whose text ends with a
  newline: the text written is the kept lines, each followed by a newline, less the last
  newline; and when no line is changed or dropped and the text has no line boundary other
  than the line feed, the text written is the text read without its final newline.
\<close>

theorem final_newline_dropped:
  assumes "files w userController_ts = Some (c @ ''\<newline>'')"
  shows "\<exists>w' out. fix_user_controller w = Done w'
      \<and> files w' userController_ts = Some out
      \<and> out = join ''\<newline>'' (fix_lines (splitlines (c @ ''\<newline>'')))
      \<and> out @ ''\<newline>'' = concat (map (\<lambda>l. l @ ''\<newline>'') (fix_lines (splitlines (c @ ''\<newline>''))))
      \<and> (only_lf c \<and> fix_lines (splitlines (c @ ''\<newline>'')) = splitlines (c @ ''\<newline>'')
           \<longrightarrow> out = c)"
proof -
  let ?ls = "splitlines (c @ ''\<newline>'')"
  let ?out = "fix_user_controller_text (c @ ''\<newline>'')"
  have ne: "fix_lines ?ls \<noteq> []"
    using splitlines_go_nonempty[of "[]" c] by (intro fix_lines_nonempty) (simp add: splitlines_def)
  have 1: "?out = join ''\<newline>'' (fix_lines ?ls)" by (simp add: fix_user_controller_text_def)
  have 2: "?out @ ''\<newline>'' = concat (map (\<lambda>l. l @ ''\<newline>'') (fix_lines ?ls))"
    unfolding 1 by (rule join_newline_terminated[OF ne])
  have 3: "?out = c" if "only_lf c" "fix_lines ?ls = ?ls"
    using that join_splitlines_go[of c "[]"] by (simp add: 1 splitlines_def)
  have "fix_user_controller w = Done (w\<lparr>files := (files w)(userController_ts \<mapsto> ?out),
          stdout := stdout w @ [''Fixed '' @ userController_ts]\<rparr>)"
    unfolding fix_user_controller_def by (rule run_patch_file[OF assms])
  with 1 2 3 show ?thesis by auto
qed

theorem final_newline_dropped_witness:
  "files \<lparr>files = [userController_ts \<mapsto> ''a\<newline>b\<newline>''], stdout = []\<rparr> userController_ts
     = Some (''a\<newline>b'' @ ''\<newline>'')
   \<and> only_lf ''a\<newline>b''
   \<and> fix_lines (splitlines (''a\<newline>b'' @ ''\<newline>'')) = splitlines (''a\<newline>b'' @ ''\<newline>'')
   \<and> (\<exists>w'. fix_user_controller \<lparr>files = [userController_ts \<mapsto> ''a\<newline>b\<newline>''], stdout = []\<rparr> = Done w'
        \<and> files w' userController_ts = Some ''a\<newline>b'')"
proof -
  define w where "w = \<lparr>files = [userController_ts \<mapsto> ''a\<newline>b\<newline>''], stdout = []\<rparr>"
  define c where "c = ''a\<newline>b''"
  have h: "files w userController_ts = Some (c @ ''\<newline>'')" by (simp add: w_def c_def)
  have o: "only_lf c" unfolding c_def by code_simp
  have u: "fix_lines (splitlines (c @ ''\<newline>'')) = splitlines (c @ ''\<newline>'')"
    unfolding c_def by code_simp
  from final_newline_dropped[OF h] obtain w' out where
    r: "fix_user_controller w = Done w'" "files w' userController_ts = Some out"
       "only_lf c \<and> fix_lines (splitlines (c @ ''\<newline>'')) = splitlines (c @ ''\<newline>'') \<longrightarrow> out = c"
    by (elim exE conjE)
  from r(3) o u have "out = c" by blast
  with r(1,2) have "\<exists>w'. fix_user_controller w = Done w' \<and> files w' userController_ts = Some c"
    by (intro exI[of _ w'] conjI) simp_all
  with h o u show ?thesis unfolding w_def c_def by (intro conjI)
qed

text \<open>
  Claim C4 (positional guard with a lookback window). The guard of the \<open>orderBy\<close> line
  rule asks whether \<open>activityLog\<close> is an element of the list of the last lines, that is,
  whether one of them is exactly that text. A line that merely contains \<open>activityLog\<close>, as
  a call of \<open>prisma.activityLog.findMany\<close> does, does not satisfy it, and the \<open>orderBy\<close>
  line below it stays as it is; only a line equal to \<open>activityLog\<close> makes the rule fire.
\<close>

theorem activityLog_guard_is_list_membership:
  "fix_lines [''  const logs = await prisma.activityLog.findMany({'',
               ''    orderBy: { createdAt: 'desc' },'', ''  });'']
     = [''  const logs = await prisma.activityLog.findMany({'',
        ''    orderBy: { createdAt: 'desc' },'', ''  });'']
   \<and> fix_lines [''activityLog'', ''    orderBy: { createdAt: 'desc' },'']
     = [''activityLog'', ''    orderBy: { timestamp: 'desc' },'']"
  by code_simp

text \<open>
  Claim C6 (deleting a matched line leaves no blank line). The two positional rules that
  remove \<open>status: true,\<close> (input lines 69, 287 and 383) append the line with the text cut
  out instead of dropping the line: on a 71-line input whose line 69 is
  \<open>      status: true,\<close> the output still has 71 lines, and line 69 is now six blanks.
  The regex rule of fix\_errors.py for the same field takes the line break before the field
  away with it and leaves no blank line.
\<close>

theorem status_line_leaves_blank_line:
  "fix_lines (replicate 69 ''x'' @ [''      status: true,'', ''}''])
     = replicate 69 ''x'' @ [''      '', ''}'']
   \<and> fix_user_controller_text
         (concat (replicate 69 ''x\<newline>'') @ ''      status: true,\<newline>}'')
     = concat (replicate 69 ''x\<newline>'') @ ''      \<newline>}''
   \<and> re_sub status_select_rx [] 0 ''      role: true,\<newline>      status: true\<newline>}''
     = ''      role: true\<newline>}''"
  by code_simp

section \<open>Properties of the regex rules\<close>

lemma re_subn_go_Lit:
  assumes "pat \<noteq> []"
  shows "re_subn_go (Lit pat) t 0 n False s =
     (if prefix pat s
      then (let (out, m) = re_subn_go (Lit pat) t 0 (n + 1) False (drop (length pat) s)
            in (expand t [] @ out, m))
      else (case s of [] \<Rightarrow> ([], n)
            | c # cs \<Rightarrow> (let (out, m) = re_subn_go (Lit pat) t 0 n False cs in (c # out, m))))"
proof (cases "prefix pat s")
  case True
  then have "length pat \<le> length s" by (rule prefix_length_le)
  with assms have "length (drop (length pat) s) < length s" by (cases s) auto
  with True show ?thesis by (subst re_subn_go.simps) simp
next
  case False
  then show ?thesis by (subst re_subn_go.simps) simp
qed

lemma occurrences_drop: "occurrences pat s = [] \<Longrightarrow> occurrences pat (drop j s) = []"
proof (induction s arbitrary: j)
  case Nil
  then show ?case by simp
next
  case (Cons c cs)
  then show ?case by (cases j) (auto split: if_splits)
qed

lemma re_subn_go_no_occurrence:
  "pat \<noteq> [] \<Longrightarrow> occurrences pat s = [] \<Longrightarrow> re_subn_go (Lit pat) t 0 n False s = (s, n)"
proof (induction s)
  case Nil
  then show ?case by (subst re_subn_go_Lit) simp_all
next
  case (Cons c cs)
  from Cons.prems have np: "\<not> prefix pat (c # cs)" and o: "occurrences pat cs = []"
    by (auto split: if_splits)
  show ?case using Cons.IH[OF Cons.prems(1) o] np
    by (subst re_subn_go_Lit[OF Cons.prems(1)]) simp
qed

lemma re_subn_go_one_occurrence:
  "pat \<noteq> [] \<Longrightarrow> occurrences pat s = [k] \<Longrightarrow>
   re_subn_go (Lit pat) t 0 n False s
     = (take k s @ expand t [] @ drop (k + length pat) s, n + 1)"
proof (induction s arbitrary: k)
  case Nil
  then show ?case by simp
next
  case (Cons c cs)
  show ?case
  proof (cases "prefix pat (c # cs)")
    case True
    with Cons.prems(2) have k: "k = 0" and o: "occurrences pat cs = []" by auto
    have "occurrences pat (drop (length pat) (c # cs)) = []"
      using occurrences_drop[OF o, of "length pat - 1"] Cons.prems(1) by (cases pat) auto
    then have "re_subn_go (Lit pat) t 0 (n + 1) False (drop (length pat) (c # cs))
        = (drop (length pat) (c # cs), n + 1)"
      by (rule re_subn_go_no_occurrence[OF Cons.prems(1)])
    with True k show ?thesis
      by (subst re_subn_go_Lit[OF Cons.prems(1)]) simp
  next
    case False
    with Cons.prems(2) obtain k' where k: "k = Suc k'" and o: "occurrences pat cs = [k']"
      by (auto simp: map_eq_Cons_conv)
    show ?thesis using Cons.IH[OF Cons.prems(1) o] False k
      by (subst re_subn_go_Lit[OF Cons.prems(1)]) simp
  qed
qed

lemma re_subn_go_no_leading_literal:
  "pat \<noteq> [] \<Longrightarrow> occurrences pat s = []
   \<Longrightarrow> re_subn_go (Cat (Lit pat) r) t 0 n False s = (s, n)"
proof (induction s)
  case Nil
  then show ?case by (subst re_subn_go.simps) simp
next
  case (Cons c cs)
  from Cons.prems have np: "\<not> prefix pat (c # cs)" and o: "occurrences pat cs = []"
    by (auto split: if_splits)
  show ?case using Cons.IH[OF Cons.prems(1) o] np
    by (subst re_subn_go.simps) simp
qed

lemma re_sub_no_leading_literal:
  "pat \<noteq> [] \<Longrightarrow> occurrences pat s = [] \<Longrightarrow> re_sub (Cat (Lit pat) r) t 0 s = s"
  by (simp add: re_sub_def re_subn_def re_subn_go_no_leading_literal)

lemma re_sub_no_literal:
  "pat \<noteq> [] \<Longrightarrow> occurrences pat s = [] \<Longrightarrow> re_sub (Lit pat) t 0 s = s"
  by (simp add: re_sub_def re_subn_def re_subn_go_no_occurrence)


text \<open>
  Claim C7 (the \<open>orderBy\<close> example, with an application count of 1). The scripts call
  \<open>re.sub\<close>, which returns the new text alone, and keep no count: after the run on a file
  with one occurrence the world holds the rewritten file and the printed line
  \<open>Fixed <path>\<close>, nothing else.
\<close>

theorem no_count_is_recorded_counterexample:
  "fix_status_controller
     \<lparr>files = [statusController_ts \<mapsto> ''  orderBy: { createdAt: 'desc' },''], stdout = []\<rparr>
   = Done \<lparr>files = [statusController_ts \<mapsto> ''  orderBy: { timestamp: 'desc' },''],
           stdout = [''Fixed backend/src/controllers/statusController.ts'']\<rparr>"
proof -
  define w where
    "w = \<lparr>files = [statusController_ts \<mapsto> ''  orderBy: { createdAt: 'desc' },''], stdout = []\<rparr>"
  have f: "files w statusController_ts = Some ''  orderBy: { createdAt: 'desc' },''"
    by (simp add: w_def)
  have t: "fix_status_controller_text ''  orderBy: { createdAt: 'desc' },''
      = ''  orderBy: { timestamp: 'desc' },''" by code_simp
  show ?thesis
    unfolding fix_status_controller_def w_def[symmetric] run_patch_file[OF f] t
    by (simp add: w_def)
qed

text \<open>
  Claim C7 as amended: when \<open>orderBy: { createdAt: 'desc' }\<close> occurs at exactly one
  position \<open>k\<close> of the buffer, the rule puts \<open>orderBy: { timestamp: 'desc' }\<close> in its
  place and keeps the text before and after it; the substitution makes one replacement (the
  number \<open>re.subn\<close> would give), which the script does not record. When the later rules of
  \<open>fix_status_controller\<close> find nothing in the new text, it is the text the function
  writes, and the written file and the line \<open>Fixed <path>\<close> are all the run leaves.
\<close>

theorem orderBy_rule_replaces_single_occurrence:
  assumes "occurrences ''orderBy: { createdAt: 'desc' }'' buffer = [k]"
    and "new = take k buffer @ ''orderBy: { timestamp: 'desc' }''
                 @ drop (k + length ''orderBy: { createdAt: 'desc' }'') buffer"
  shows "re_sub orderBy_rx orderBy_tpl 0 buffer = new
       \<and> re_subn orderBy_rx orderBy_tpl 0 buffer = (new, 1)
       \<and> take k buffer @ ''orderBy: { createdAt: 'desc' }''
            @ drop (k + length ''orderBy: { createdAt: 'desc' }'') buffer = buffer
       \<and> (occurrences ''createdAt: true,'' new = []
            \<and> occurrences ''userId: '' new = []
            \<and> occurrences ''select: { id: true, fullName: true, role: true, status: true }'' new = []
            \<and> occurrences (''assignee.status !== 'ACTIVE'' @ [CHR 0x27]) new = []
            \<and> files w statusController_ts = Some buffer
          \<longrightarrow> fix_status_controller_text buffer = new
            \<and> fix_status_controller w
                = Done (w\<lparr>files := (files w)(statusController_ts \<mapsto> new),
                          stdout := stdout w
                            @ [''Fixed backend/src/controllers/statusController.ts'']\<rparr>))"
proof -
  let ?p = "''orderBy: { createdAt: 'desc' }''"
  have ne: "?p \<noteq> []" by simp
  have occ: "occurrences p s = [j] \<Longrightarrow> take j s @ p @ drop (j + length p) s = s" for p s j
  proof (induction s arbitrary: j)
    case Nil
    then show ?case by (auto split: if_splits)
  next
    case (Cons c cs)
    show ?case
    proof (cases "prefix p (c # cs)")
      case True
      with Cons.prems have "j = 0" by auto
      with True show ?thesis by (auto simp: prefix_def)
    next
      case False
      with Cons.prems obtain j' where "j = Suc j'" "occurrences p cs = [j']"
        by (auto simp: map_eq_Cons_conv)
      with Cons.IH[of j'] show ?thesis by simp
    qed
  qed
  have "re_subn orderBy_rx orderBy_tpl 0 buffer
     = (take k buffer @ expand orderBy_tpl [] @ drop (k + length ?p) buffer, 0 + 1)"
    unfolding re_subn_def by (rule re_subn_go_one_occurrence[OF ne assms(1)])
  then have 1: "re_subn orderBy_rx orderBy_tpl 0 buffer = (new, 1)"
    by (simp add: assms(2))
  then have 0: "re_sub orderBy_rx orderBy_tpl 0 buffer = new" by (simp add: re_sub_def)
  have chain: "fix_status_controller_text buffer = new
            \<and> fix_status_controller w
                = Done (w\<lparr>files := (files w)(statusController_ts \<mapsto> new),
                          stdout := stdout w
                            @ [''Fixed backend/src/controllers/statusController.ts'']\<rparr>)"
    if h: "occurrences ''createdAt: true,'' new = []"
          "occurrences ''userId: '' new = []"
          "occurrences ''select: { id: true, fullName: true, role: true, status: true }'' new = []"
          "occurrences (''assignee.status !== 'ACTIVE'' @ [CHR 0x27]) new = []"
          "files w statusController_ts = Some buffer"
  proof -
    have r2: "re_sub (seq [Lit ''createdAt: true,'', Star WS, Lit ''user:''])
                [T ''timestamp: true,\<newline>        user:''] 0 new = new"
      using re_sub_no_leading_literal[OF _ h(1)] by simp
    have r3: "re_sub (seq [Lit ''userId: '',
                           Grp (Alt (Lit ''validatedData.assignToId'')
                               (Alt (Lit ''document.createdById'') (Lit ''doc.createdById'')))])
                         [T ''recipientUserId: '', G 1] 0 new = new"
      using re_sub_no_leading_literal[OF _ h(2)] by simp
    have r4: "re_sub (Lit ''select: { id: true, fullName: true, role: true, status: true }'')
                         [T ''select: { id: true, fullName: true, role: true, isActive: true }''] 0
                         new = new"
      using re_sub_no_literal[OF _ h(3)] by simp
    have r5: "re_sub (Lit (''assignee.status !== 'ACTIVE'' @ [CHR 0x27]))
                         [T ''!assignee.isActive''] 0 new = new"
      using re_sub_no_literal[OF _ h(4)] by simp
    have 3: "fix_status_controller_text buffer = new"
      unfolding fix_status_controller_text_def Let_def 0 r2 r3 r4 r5 ..
    have 4: "fix_status_controller w
             = Done (w\<lparr>files := (files w)(statusController_ts \<mapsto> new),
                       stdout := stdout w @ [''Fixed backend/src/controllers/statusController.ts'']\<rparr>)"
      unfolding fix_status_controller_def run_patch_file[OF h(5)] 3 by simp
    from 3 4 show ?thesis by (rule conjI)
  qed
  from 0 1 occ[OF assms(1)] chain show ?thesis by blast
qed

theorem orderBy_rule_replaces_single_occurrence_witness:
  "occurrences ''orderBy: { createdAt: 'desc' }'' ''  orderBy: { createdAt: 'desc' },'' = [2]
   \<and> re_sub orderBy_rx orderBy_tpl 0 ''  orderBy: { createdAt: 'desc' },''
       = ''  orderBy: { timestamp: 'desc' },''
   \<and> re_subn orderBy_rx orderBy_tpl 0 ''  orderBy: { createdAt: 'desc' },''
       = (''  orderBy: { timestamp: 'desc' },'', 1)
   \<and> fix_status_controller_text ''  orderBy: { createdAt: 'desc' },''
       = ''  orderBy: { timestamp: 'desc' },''"
proof -
  define buffer where "buffer = ''  orderBy: { createdAt: 'desc' },''"
  define new where "new = ''  orderBy: { timestamp: 'desc' },''"
  define w where "w = \<lparr>files = [statusController_ts \<mapsto> buffer], stdout = []\<rparr>"
  have h1: "occurrences ''orderBy: { createdAt: 'desc' }'' buffer = [2]"
    unfolding buffer_def by code_simp
  have h2: "new = take 2 buffer @ ''orderBy: { timestamp: 'desc' }''
                 @ drop (2 + length ''orderBy: { createdAt: 'desc' }'') buffer"
    unfolding buffer_def new_def by simp
  have h3: "occurrences ''createdAt: true,'' new = []" unfolding new_def by code_simp
  have h4: "occurrences ''userId: '' new = []" unfolding new_def by code_simp
  have h5: "occurrences ''select: { id: true, fullName: true, role: true, status: true }'' new = []"
    unfolding new_def by code_simp
  have h6: "occurrences (''assignee.status !== 'ACTIVE'' @ [CHR 0x27]) new = []"
    unfolding new_def by code_simp
  have h7: "files w statusController_ts = Some buffer" by (simp add: w_def)
  note t = orderBy_rule_replaces_single_occurrence[OF h1 h2, of w]
  from t have a: "re_sub orderBy_rx orderBy_tpl 0 buffer = new" by (rule conjunct1)
  from t have b: "re_subn orderBy_rx orderBy_tpl 0 buffer = (new, 1)" by blast
  from t h3 h4 h5 h6 h7 have c: "fix_status_controller_text buffer = new" by blast
  from h1 a b c show ?thesis unfolding buffer_def new_def by (intro conjI)
qed

text \<open>
  Claim C3 (a rule finds nothing to do on its own output). The rule of
  \<open>fix_upload_middleware\<close> replaces \<open>next(); };\<close> by \<open>return next(); };\<close>, and the
  replacement still contains the pattern: applied to its own output the rule makes one more
  replacement and writes \<open>return return next();\<close>. The rule that adds the \<open>_count\<close>
  block puts the matched text back in front of the block, so it matches its own output as
  well and adds the block a second time.
\<close>

theorem next_rule_matches_its_own_output:
  "re_subn next_rx next_tpl 0 ''next();\<newline>};'' = (''return next();\<newline>};'', 1)
   \<and> re_subn next_rx next_tpl 0 ''return next();\<newline>};'' = (''return return next();\<newline>};'', 1)
   \<and> fix_upload_middleware_text (fix_upload_middleware_text ''next();\<newline>};'')
       = ''return return next();\<newline>};''
   \<and> snd (re_subn count_rx count_tpl 0
         (re_sub count_rx count_tpl 0 ''departmentId: true, createdAt: true, updatedAt: true,'')) = 1"
  by code_simp

section \<open>Properties of the write-back and of the sessions\<close>

lemma and_then_assoc: "and_then (and_then a f) g = and_then a (\<lambda>w. and_then (f w) g)"
  by (cases a) simp_all

lemma and_then_Done: "and_then a Done = a"
  by (cases a) simp_all

lemma fix_errors_main_session:
  "fix_errors_main w
     = and_then (session fix_errors_patchers w) (\<lambda>w'. Done (print_line ''\<newline>All fixes applied!'' w'))"
proof -
  have s: "session fix_errors_patchers w =
      and_then (and_then (and_then (and_then (fix_status_controller w)
       fix_user_controller_regex) fix_search_controller) fix_auth_controller) fix_upload_middleware"
    unfolding fix_errors_patchers_def session.simps and_then_assoc
      fix_status_controller_def fix_user_controller_regex_def fix_search_controller_def
      fix_auth_controller_def fix_upload_middleware_def
    by (cases "run (patch_file statusController_ts fix_status_controller_text) w")
       (simp_all add: and_then_Done)
  show ?thesis unfolding fix_errors_main_def s ..
qed

lemma session_stops:
  assumes "distinct (map fst ps)" and "k < length ps"
    and "\<forall>j<k. files w (fst (ps ! j)) \<noteq> None"
    and "files w (fst (ps ! k)) = None"
  shows "\<exists>w'. session ps w = Raised (FileNotFoundError (fst (ps ! k))) w'
      \<and> (\<forall>j<k. files w' (fst (ps ! j)) = map_option (snd (ps ! j)) (files w (fst (ps ! j))))
      \<and> (\<forall>q. q \<notin> fst ` set (take k ps) \<longrightarrow> files w' q = files w q)
      \<and> stdout w' = stdout w @ map (\<lambda>x. ''Fixed '' @ fst x) (take k ps)"
  using assms
proof (induction ps arbitrary: k w)
  case Nil
  then show ?case by simp
next
  case (Cons pf ps)
  obtain p f where pf: "pf = (p, f)" by (cases pf)
  show ?case
  proof (cases k)
    case 0
    with Cons.prems(4) have "files w p = None" by (simp add: pf)
    then show ?thesis using 0 by (simp add: pf run_patch_file_missing)
  next
    case (Suc k')
    from Cons.prems(3) Suc have "files w p \<noteq> None" by (auto simp: pf)
    then obtain c where c: "files w p = Some c" by auto
    define w1 where "w1 = w\<lparr>files := (files w)(p \<mapsto> f c), stdout := stdout w @ [''Fixed '' @ p]\<rparr>"
    have run: "run (patch_file p f) w = Done w1"
      unfolding w1_def by (rule run_patch_file[OF c])
    have d: "distinct (map fst ps)" and pn: "p \<notin> fst ` set ps"
      using Cons.prems(1) by (auto simp: pf)
    have k': "k' < length ps" using Cons.prems(2) Suc by simp
    have other: "files w1 q = files w q" if "q \<noteq> p" for q
      using that by (simp add: w1_def)
    have np: "fst (ps ! j) \<noteq> p" if "j < length ps" for j
      using pn that by (metis image_eqI nth_mem)
    have h3: "\<forall>j<k'. files w1 (fst (ps ! j)) \<noteq> None"
    proof (intro allI impI)
      fix j assume j: "j < k'"
      then have "files w (fst (ps ! j)) \<noteq> None"
        using Cons.prems(3) Suc by (auto simp: pf dest: spec[of _ "Suc j"])
      moreover have "fst (ps ! j) \<noteq> p" using np j k' by simp
      ultimately show "files w1 (fst (ps ! j)) \<noteq> None" by (simp add: other)
    qed
    have h4: "files w1 (fst (ps ! k')) = None"
      using Cons.prems(4) Suc np[OF k'] by (simp add: other)
    from Cons.IH[OF d k' h3 h4] obtain w' where
      r: "session ps w1 = Raised (FileNotFoundError (fst (ps ! k'))) w'"
         "\<forall>j<k'. files w' (fst (ps ! j)) = map_option (snd (ps ! j)) (files w1 (fst (ps ! j)))"
         "\<forall>q. q \<notin> fst ` set (take k' ps) \<longrightarrow> files w' q = files w1 q"
         "stdout w' = stdout w1 @ map (\<lambda>x. ''Fixed '' @ fst x) (take k' ps)"
      by blast
    have 1: "session (pf # ps) w = Raised (FileNotFoundError (fst ((pf # ps) ! k))) w'"
      using r(1) run Suc by (simp add: pf)
    have pt: "p \<notin> fst ` set (take k' ps)"
      using pn by (meson image_mono in_mono set_take_subset)
    have 2: "files w' (fst ((pf # ps) ! j)) = map_option (snd ((pf # ps) ! j)) (files w (fst ((pf # ps) ! j)))"
      if "j < k" for j
    proof (cases j)
      case 0
      then show ?thesis using r(3) pt c by (simp add: pf w1_def)
    next
      case (Suc j')
      with that \<open>k = Suc k'\<close> have j': "j' < k'" by simp
      then have "fst (ps ! j') \<noteq> p" using np k' by simp
      then show ?thesis using r(2) j' Suc by (simp add: other)
    qed
    have 3: "files w' q = files w q" if "q \<notin> fst ` set (take k (pf # ps))" for q
      using that r(3) Suc by (simp add: pf other)
    have 4: "stdout w' = stdout w @ map (\<lambda>x. ''Fixed '' @ fst x) (take k (pf # ps))"
      using r(4) Suc by (simp add: pf w1_def)
    from 1 2 3 4 show ?thesis by blast
  qed
qed


lemma fix_errors_patchers_distinct: "distinct (map fst fix_errors_patchers)"
  by (simp add: fix_errors_patchers_def)

text \<open>
  Claim C1 (atomic write-back, no write when unchanged). The scripts write back with
  \<open>write_text\<close> on the path they read. On a file whose text no rule changes, the run
  passes through a world in which the file is empty, then writes the same text again; no
  other file exists at any moment.
\<close>

theorem write_back_truncates_counterexample:
  "patch_file statusController_ts fix_status_controller_text
     \<lparr>files = [statusController_ts \<mapsto> ''const a = 1;\<newline>''], stdout = []\<rparr>
   = Inr [\<lparr>files = [statusController_ts \<mapsto> []], stdout = []\<rparr>,
          \<lparr>files = [statusController_ts \<mapsto> ''const a = 1;\<newline>''], stdout = []\<rparr>,
          \<lparr>files = [statusController_ts \<mapsto> ''const a = 1;\<newline>''],
           stdout = [''Fixed backend/src/controllers/statusController.ts'']\<rparr>]"
proof -
  have t: "fix_status_controller_text ''const a = 1;\<newline>'' = ''const a = 1;\<newline>''" by code_simp
  show ?thesis
    unfolding patch_file_def read_text_def open_w_def write_data_def print_line_def
    by (simp add: t Let_def)
qed

text \<open>
  Claim C1 as amended: for every file that can be read, the write-back empties the file
  and then fills it with the new text, both at the file's own path; all other paths are as
  they were; this holds whether or not the new text differs from the old one.
\<close>

theorem write_back_in_place:
  assumes "files w p = Some content"
  shows "\<exists>w1 w2 w3. patch_file p f w = Inr [w1, w2, w3]
      \<and> run (patch_file p f) w = Done w3
      \<and> files w1 = (files w)(p \<mapsto> [])
      \<and> files w2 = (files w)(p \<mapsto> f content)
      \<and> files w3 = (files w)(p \<mapsto> f content)"
  using assms
  by (simp add: run_def patch_file_def read_text_def open_w_def write_data_def print_line_def Let_def)

theorem write_back_in_place_witness:
  "files \<lparr>files = [statusController_ts \<mapsto> ''const a = 1;\<newline>''], stdout = []\<rparr> statusController_ts
     = Some ''const a = 1;\<newline>''
   \<and> (\<exists>w1 w2 w3. patch_file statusController_ts fix_status_controller_text
          \<lparr>files = [statusController_ts \<mapsto> ''const a = 1;\<newline>''], stdout = []\<rparr> = Inr [w1, w2, w3]
        \<and> fix_status_controller
             \<lparr>files = [statusController_ts \<mapsto> ''const a = 1;\<newline>''], stdout = []\<rparr> = Done w3
        \<and> files w1 statusController_ts = Some []
        \<and> files w3 statusController_ts = Some ''const a = 1;\<newline>'')"
proof -
  define w where "w = \<lparr>files = [statusController_ts \<mapsto> ''const a = 1;\<newline>''], stdout = []\<rparr>"
  define c where "c = ''const a = 1;\<newline>''"
  have h: "files w statusController_ts = Some c" by (simp add: w_def c_def)
  have t: "fix_status_controller_text c = c" unfolding c_def by code_simp
  from write_back_in_place[OF h, of fix_status_controller_text] obtain w1 w2 w3 where
    r: "patch_file statusController_ts fix_status_controller_text w = Inr [w1, w2, w3]"
       "run (patch_file statusController_ts fix_status_controller_text) w = Done w3"
       "files w1 = (files w)(statusController_ts \<mapsto> [])"
       "files w3 = (files w)(statusController_ts \<mapsto> fix_status_controller_text c)"
    by blast
  have "\<exists>w1 w2 w3. patch_file statusController_ts fix_status_controller_text w = Inr [w1, w2, w3]
        \<and> fix_status_controller w = Done w3
        \<and> files w1 statusController_ts = Some []
        \<and> files w3 statusController_ts = Some c"
    using r unfolding fix_status_controller_def t by auto
  with h show ?thesis unfolding w_def c_def by (rule conjI)
qed

text \<open>
  Claim C2 (a file that cannot be read does not stop the session). The scripts call their
  patcher functions one after the other with no exception handler. With
  statusController.ts missing, \<open>fix_errors_main\<close> ends with the exception and the world
  unchanged: upload.ts, which \<open>fix_upload_middleware\<close> would rewrite, is never touched.
\<close>

theorem missing_file_ends_session_counterexample:
  "fix_errors_main \<lparr>files = [upload_ts \<mapsto> ''next();\<newline>};''], stdout = []\<rparr>
     = Raised (FileNotFoundError statusController_ts)
         \<lparr>files = [upload_ts \<mapsto> ''next();\<newline>};''], stdout = []\<rparr>
   \<and> fix_upload_middleware \<lparr>files = [upload_ts \<mapsto> ''next();\<newline>};''], stdout = []\<rparr>
     = Done \<lparr>files = [upload_ts \<mapsto> ''return next();\<newline>};''],
             stdout = [''Fixed backend/src/middleware/upload.ts'']\<rparr>"
proof -
  define w where "w = \<lparr>files = [upload_ts \<mapsto> ''next();\<newline>};''], stdout = []\<rparr>"
  have m: "files w statusController_ts = None" by (simp add: w_def)
  have u: "files w upload_ts = Some ''next();\<newline>};''" by (simp add: w_def)
  have t: "fix_upload_middleware_text ''next();\<newline>};'' = ''return next();\<newline>};''" by code_simp
  have 1: "fix_errors_main w = Raised (FileNotFoundError statusController_ts) w"
    unfolding fix_errors_main_def fix_status_controller_def run_patch_file_missing[OF m]
    by simp
  have 2: "fix_upload_middleware w
      = Done \<lparr>files = [upload_ts \<mapsto> ''return next();\<newline>};''],
              stdout = [''Fixed backend/src/middleware/upload.ts'']\<rparr>"
    unfolding fix_upload_middleware_def run_patch_file[OF u] t by (simp add: w_def)
  from 1 2 show ?thesis unfolding w_def by (rule conjI)
qed

lemma fix_notifications_main_stops:
  "files w statusController_ts = None
   \<Longrightarrow> fix_notifications_main w = Raised (FileNotFoundError statusController_ts) w"
  by (simp add: fix_notifications_main_def fix_notifications_def run_patch_file_missing)

text \<open>
  Claim C2 as amended: when the \<open>k\<close>-th target file is the first that cannot be read, the
  session ends with that file's exception; the files before it hold their patched text and
  their \<open>Fixed\<close> lines are printed; the missing file and every later target file are as
  they were.
\<close>

theorem session_stops_at_first_missing_file:
  assumes "k < length fix_errors_patchers"
    and "\<forall>j<k. files w (fst (fix_errors_patchers ! j)) \<noteq> None"
    and "files w (fst (fix_errors_patchers ! k)) = None"
  shows "\<exists>w'. fix_errors_main w = Raised (FileNotFoundError (fst (fix_errors_patchers ! k))) w'
      \<and> (\<forall>j<k. files w' (fst (fix_errors_patchers ! j))
             = map_option (snd (fix_errors_patchers ! j)) (files w (fst (fix_errors_patchers ! j))))
      \<and> (\<forall>j. k \<le> j \<and> j < length fix_errors_patchers
             \<longrightarrow> files w' (fst (fix_errors_patchers ! j)) = files w (fst (fix_errors_patchers ! j)))
      \<and> stdout w' = stdout w @ map (\<lambda>x. ''Fixed '' @ fst x) (take k fix_errors_patchers)"
proof -
  let ?ps = "fix_errors_patchers"
  from session_stops[OF fix_errors_patchers_distinct assms] obtain w' where
    r: "session ?ps w = Raised (FileNotFoundError (fst (?ps ! k))) w'"
       "\<forall>j<k. files w' (fst (?ps ! j)) = map_option (snd (?ps ! j)) (files w (fst (?ps ! j)))"
       "\<forall>q. q \<notin> fst ` set (take k ?ps) \<longrightarrow> files w' q = files w q"
       "stdout w' = stdout w @ map (\<lambda>x. ''Fixed '' @ fst x) (take k ?ps)"
    by blast
  have 1: "fix_errors_main w = Raised (FileNotFoundError (fst (?ps ! k))) w'"
    unfolding fix_errors_main_session r(1) by simp
  have 3: "files w' (fst (?ps ! j)) = files w (fst (?ps ! j))" if "k \<le> j" "j < length ?ps" for j
  proof -
    have "fst (?ps ! j) \<notin> fst ` set (take k ?ps)"
    proof
      assume "fst (?ps ! j) \<in> fst ` set (take k ?ps)"
      then obtain i where i: "i < k" "fst (?ps ! i) = fst (?ps ! j)"
        using assms(1) by (auto simp: in_set_conv_nth)
      then have "map fst ?ps ! i = map fst ?ps ! j" using that assms(1) by simp
      then have "i = j"
        using fix_errors_patchers_distinct that i assms(1)
        by (simp add: nth_eq_iff_index_eq del: nth_map)
      with i that show False by simp
    qed
    with r(3) show ?thesis by blast
  qed
  from 1 r(2) 3 r(4) show ?thesis by blast
qed


theorem session_stops_at_first_missing_file_witness:
  "1 < length fix_errors_patchers
   \<and> files \<lparr>files = [statusController_ts \<mapsto> ''x''], stdout = []\<rparr>
         (fst (fix_errors_patchers ! 0)) \<noteq> None
   \<and> files \<lparr>files = [statusController_ts \<mapsto> ''x''], stdout = []\<rparr>
         (fst (fix_errors_patchers ! 1)) = None
   \<and> (\<exists>w'. fix_errors_main \<lparr>files = [statusController_ts \<mapsto> ''x''], stdout = []\<rparr>
              = Raised (FileNotFoundError userController_ts) w'
          \<and> files w' statusController_ts = Some ''x''
          \<and> stdout w' = [''Fixed backend/src/controllers/statusController.ts''])"
proof -
  define w where "w = \<lparr>files = [statusController_ts \<mapsto> ''x''], stdout = []\<rparr>"
  have p0: "fix_errors_patchers ! 0 = (statusController_ts, fix_status_controller_text)"
    and p1: "fst (fix_errors_patchers ! 1) = userController_ts"
    by (simp_all add: fix_errors_patchers_def)
  have h1: "1 < length fix_errors_patchers" by (simp add: fix_errors_patchers_def)
  have h2: "\<forall>j<1. files w (fst (fix_errors_patchers ! j)) \<noteq> None"
    by (simp add: w_def p0)
  have h3: "files w (fst (fix_errors_patchers ! 1)) = None"
    unfolding p1 by (simp add: w_def)
  have t: "fix_status_controller_text ''x'' = ''x''" by code_simp
  from session_stops_at_first_missing_file[OF h1 h2 h3] obtain w' where
    r: "fix_errors_main w = Raised (FileNotFoundError (fst (fix_errors_patchers ! 1))) w'"
       "\<forall>j<1. files w' (fst (fix_errors_patchers ! j))
             = map_option (snd (fix_errors_patchers ! j)) (files w (fst (fix_errors_patchers ! j)))"
       "stdout w' = stdout w @ map (\<lambda>x. ''Fixed '' @ fst x) (take 1 fix_errors_patchers)"
    by blast
  from r(2) have "files w' (fst (fix_errors_patchers ! 0))
      = map_option (snd (fix_errors_patchers ! 0)) (files w (fst (fix_errors_patchers ! 0)))"
    by simp
  then have f: "files w' statusController_ts = Some ''x''"
    unfolding p0 by (simp add: w_def t)
  have o: "stdout w' = [''Fixed backend/src/controllers/statusController.ts'']"
    using r(3) by (simp add: w_def fix_errors_patchers_def)
  have "\<exists>w'. fix_errors_main w = Raised (FileNotFoundError userController_ts) w'
          \<and> files w' statusController_ts = Some ''x''
          \<and> stdout w' = [''Fixed backend/src/controllers/statusController.ts'']"
    using r(1) f o unfolding p1 by blast
  moreover have "files w (fst (fix_errors_patchers ! 0)) \<noteq> None"
    by (simp add: w_def p0)
  ultimately show ?thesis using h1 h3 unfolding w_def by (intro conjI)
qed






end
